theory Spec2Isabelle
  imports Main "HOL-Library.AList"
begin

chapter \<open>The model\<close>

section \<open>The interactive walk and the config synthesis of \<open>initManualConfig\<close>\<close>

text \<open>
  \<open>initManualConfig\<close> (the \<open>cli\<close> package) walks one option tree per scanner. The
  walk is the closure \<open>walkDepth\<close>; it asks for a value at every node it visits and
  writes into two variables of the enclosing loop body, \<open>configPth\<close> and \<open>appEnvs\<close>.
  After the walk the loop body looks the config text up under \<open>configPth\<close>, parses it
  and stores \<open>appEnvs\<close> as the environments of the app.
\<close>

subsection \<open>Data\<close>

text \<open>
  Modelled from the spec: the declaration of \<open>models.OptionModel\<close> that the \<open>cli\<close>
  package is compiled against is not among the sources. The walk passes nodes by value
  and reads the field \<open>ValueMap\<close>, a Go map from the selectable value to the nested
  node (also held by value), so a node is a finite tree. The other fields are the ones
  of section 3 of the spec; the walk itself reads none of them. Only lookups are made in
  \<open>ValueMap\<close>, through \<open>map_of\<close>; a nil map is the empty list.
\<close>

datatype WalkOption =
  WalkOption (wTitle: string) (wEnvKey: string) (ValueMap: "(string \<times> WalkOption) list")
    (wConfig: string)

text \<open>
  \<open>envmanModels.EnvironmentItemModel\<close> is a Go map from strings to values; the walk
  appends maps of one entry, \<open>{optionEnvKey: selectedValue}\<close>.
\<close>

type_synonym EnvironmentItemModel = "(string \<times> string) list"

text \<open>The two variables the closure \<open>walkDepth\<close> captures.\<close>

record walk_vars =
  configPth :: string
  appEnvs :: "EnvironmentItemModel list"

text \<open>
  \<open>bitriseModels.BitriseDataModel\<close> belongs to another repository. The loop body
  touches one field of it, \<open>App.Environments\<close>; all other fields of the app and of
  the document are kept as the two type parameters.
\<close>

record 'a AppModel =
  Environments :: "EnvironmentItemModel list"
  app_fields :: 'a

record ('a, 'b) BitriseDataModel =
  App :: "'a AppModel"
  data_fields :: 'b

subsection \<open>The walk\<close>

text \<open>
  \<open>askForValue\<close> is not among the sources and reads the terminal, so it is a
  parameter: from the state \<open>'io\<close> of the terminal and the node it gives the next
  state and either an error text or the pair \<open>(optionEnvKey, selectedValue)\<close>.
  \<open>walkDepth\<close> returns the error of the Go closure, \<open>None\<close> for \<open>nil\<close>.
\<close>

function walkDepth ::
  "('io \<Rightarrow> WalkOption \<Rightarrow> 'io \<times> (string + string \<times> string)) \<Rightarrow> WalkOption \<Rightarrow>
    walk_vars \<times> 'io \<Rightarrow> (walk_vars \<times> 'io) \<times> string option" where
  "walkDepth askForValue option (vars, io) =
    (case askForValue io option of
      (io', Inl err) \<Rightarrow> ((vars, io'), Some (''Failed to ask for vale, error: '' @ err))
    | (io', Inr (optionEnvKey, selectedValue)) \<Rightarrow>
        (let vars' =
            (if optionEnvKey = ''''
             then vars\<lparr>configPth := selectedValue\<rparr>
             else vars\<lparr>appEnvs := appEnvs vars @ [[(optionEnvKey, selectedValue)]]\<rparr>)
         in case map_of (ValueMap option) selectedValue of
              None \<Rightarrow> ((vars', io'), None)
            | Some nestedOptions \<Rightarrow> walkDepth askForValue nestedOptions (vars', io')))"
  by pat_completeness auto
termination
proof (relation "measure (\<lambda>(askForValue, option, st). size option)")
  show "wf (measure (\<lambda>(askForValue, option, st). size option))"
    by simp
next
  fix askForValue :: "'io \<Rightarrow> WalkOption \<Rightarrow> 'io \<times> (string + string \<times> string)"
  fix option nestedOptions :: WalkOption
  fix vars :: walk_vars and io :: 'io and vars' :: walk_vars and io' :: 'io
  fix selectedValue :: string
  have smaller: "map_of xs k = Some y \<Longrightarrow> size y < Suc (size_list (size_prod (\<lambda>_. 0) size) xs)"
    for xs :: "(string \<times> WalkOption) list" and k y
    by (induction xs) (auto split: if_splits)
  assume "map_of (ValueMap option) selectedValue = Some nestedOptions"
  then have "size nestedOptions < size option"
    using smaller [of "ValueMap option" selectedValue nestedOptions]
    by (cases option) simp
  then show "((askForValue, nestedOptions, vars', io'), (askForValue, option, vars, io))
      \<in> measure (\<lambda>(askForValue, option, st). size option)"
    by simp
qed

subsection \<open>The config synthesis\<close>

text \<open>
  Lines 206 to 214 of the loop body. \<open>configMap[configPth]\<close> on a Go map gives the
  empty string when the key is absent. \<open>yaml.Unmarshal\<close> is a library function and a
  parameter here: from the text it gives an error text or the decoded document.
\<close>

definition lookupConfig :: "(string \<times> string) list \<Rightarrow> string \<Rightarrow> string" where
  "lookupConfig configMap name = (case map_of configMap name of None \<Rightarrow> '''' | Some s \<Rightarrow> s)"

definition synthesize ::
  "(string \<Rightarrow> string + ('a, 'b) BitriseDataModel) \<Rightarrow> (string \<times> string) list \<Rightarrow> walk_vars \<Rightarrow>
    string + ('a, 'b) BitriseDataModel" where
  "synthesize yaml_Unmarshal configMap vars =
    (let configStr = lookupConfig configMap (configPth vars)
     in case yaml_Unmarshal configStr of
          Inl err \<Rightarrow> Inl (''Failed to unmarshal config, error: '' @ err)
        | Inr config \<Rightarrow> Inr (config\<lparr>App := (App config)\<lparr>Environments := appEnvs vars\<rparr>\<rparr>))"

section \<open>The option tree of \<open>models/option.go\<close>\<close>

text \<open>
  The nodes of a tree are Go structs that are reached through pointers, shared and
  updated in place, so the model has an explicit store. A store is the list of the
  nodes allocated so far and an address is an index into it; a new node is appended.
  A pointer is an address or \<open>nil\<close>. Go has no dangling pointers: the pointers of a
  store are meant to be below its length.
\<close>

type_synonym addr = nat

type_synonym ref = "addr option"

text \<open>
  \<open>ChildOptionMap\<close> is a Go map and may be \<open>nil\<close> (\<open>None\<close>). A map is the list
  of its entries, and the order of the list is the order in which a \<open>range\<close> loop
  visits the entries: Go leaves that order open, and the functions below are defined
  for every order. All loops over the maps of one store follow the lists of that
  store; a run that visits a map in another order is a run on the store with that
  list reordered. The keys of a map are distinct. \<open>Components\<close> is a slice of
  strings, modelled by its elements (the \<open>nil\<close> slice is the empty list); the sharing
  of backing arrays between slices is not part of the model.
\<close>

record OptionModel =
  Title :: string
  EnvKey :: string
  Type :: string
  ChildOptionMap :: "(string \<times> ref) list option"
  Config :: string
  Components :: "string list"
  Head :: ref

type_synonym heap = "OptionModel list"

text \<open>The run-time panics of the functions below.\<close>

datatype panic = NilMapAssignment | NilPointerDereference | SliceBoundsOutOfRange

text \<open>The entries a \<open>range\<close> loop over the map visits; none for the \<open>nil\<close> map.\<close>

definition entries :: "OptionModel \<Rightarrow> (string \<times> ref) list" where
  "entries option = (case ChildOptionMap option of None \<Rightarrow> [] | Some m \<Rightarrow> m)"


subsection \<open>Constructors and predicates\<close>

definition NewOption :: "heap \<Rightarrow> string \<Rightarrow> string \<Rightarrow> heap \<times> addr" where
  "NewOption h title envKey =
    (h @ [\<lparr>Title = title, EnvKey = envKey, Type = '''', ChildOptionMap = Some [],
           Config = '''', Components = [], Head = None\<rparr>], length h)"

definition NewConfigOption :: "heap \<Rightarrow> string \<Rightarrow> heap \<times> addr" where
  "NewConfigOption h name =
    (h @ [\<lparr>Title = '''', EnvKey = '''', Type = '''', ChildOptionMap = Some [],
           Config = name, Components = [], Head = None\<rparr>], length h)"

definition IsConfigOption :: "OptionModel \<Rightarrow> bool" where
  "IsConfigOption option = (Config option \<noteq> '''')"

definition IsValueOption :: "OptionModel \<Rightarrow> bool" where
  "IsValueOption option = (Title option \<noteq> '''')"

definition IsEmpty :: "OptionModel \<Rightarrow> bool" where
  "IsEmpty option = (\<not> IsValueOption option \<and> \<not> IsConfigOption option)"

subsection \<open>Attachment\<close>



subsection \<open>Navigation\<close>



subsection \<open>Last children\<close>

text \<open>
  \<open>LastChilds\<close> runs the recursive closure \<open>walk\<close>, which appends to the captured
  slice \<open>lastOptions\<close>. The loop over the children of one node is \<open>scan_children\<close>;
  each of its three tests returns from the closure. On a store with a cycle the
  closure never returns, so \<open>walk\<close> has a bound on the depth of its recursion and
  gives \<open>None\<close> when the bound is reached.
\<close>

fun scan_children ::
  "(addr \<Rightarrow> addr list \<Rightarrow> addr list option) \<Rightarrow> heap \<Rightarrow> addr \<Rightarrow> (string \<times> ref) list \<Rightarrow>
    addr list \<Rightarrow> addr list option" where
  "scan_children walk h opt [] lastOptions = Some lastOptions"
| "scan_children walk h opt ((key, childOption) # rest) lastOptions =
    (case childOption of
       None \<Rightarrow> Some (lastOptions @ [opt])
     | Some c \<Rightarrow>
         if IsConfigOption (h ! c) then Some (lastOptions @ [opt])
         else if IsEmpty (h ! c) then Some (lastOptions @ [opt])
         else (case walk c lastOptions of
                 None \<Rightarrow> None
               | Some lastOptions' \<Rightarrow> scan_children walk h opt rest lastOptions'))"

primrec walk :: "nat \<Rightarrow> heap \<Rightarrow> addr \<Rightarrow> addr list \<Rightarrow> addr list option" where
  "walk 0 h opt lastOptions = None"
| "walk (Suc depth) h opt lastOptions =
    (if length (entries (h ! opt)) = 0 then Some (lastOptions @ [opt])
     else scan_children (walk depth h) h opt (entries (h ! opt)) lastOptions)"

definition LastChilds :: "nat \<Rightarrow> heap \<Rightarrow> addr \<Rightarrow> addr list option" where
  "LastChilds depth h option = walk depth h option []"


subsection \<open>\<open>RemoveConfigs\<close> and \<open>AttachToLastChilds\<close>\<close>

text \<open>
  Both run \<open>LastChilds\<close> first and then two nested loops. \<open>clear_configs\<close> is the
  inner loop of \<open>RemoveConfigs\<close>: the assignment \<open>child.Config = ""\<close> dereferences the
  child and panics on a \<open>nil\<close> entry.
\<close>

fun clear_configs :: "heap \<Rightarrow> (string \<times> ref) list \<Rightarrow> panic + heap" where
  "clear_configs h [] = Inr h"
| "clear_configs h ((key, child) # rest) =
    (case child of
       None \<Rightarrow> Inl NilPointerDereference
     | Some c \<Rightarrow> clear_configs (h[c := (h ! c)\<lparr>Config := ''''\<rparr>]) rest)"

fun remove_configs :: "heap \<Rightarrow> addr list \<Rightarrow> panic + heap" where
  "remove_configs h [] = Inr h"
| "remove_configs h (child # lastChilds) =
    (case clear_configs h (entries (h ! child)) of
       Inl p \<Rightarrow> Inl p
     | Inr h' \<Rightarrow> remove_configs h' lastChilds)"

definition RemoveConfigs :: "nat \<Rightarrow> heap \<Rightarrow> addr \<Rightarrow> (panic + heap) option" where
  "RemoveConfigs depth h option =
    (case LastChilds depth h option of
       None \<Rightarrow> None
     | Some lastChilds \<Rightarrow> Some (remove_configs h lastChilds))"




subsection \<open>\<open>Copy\<close>\<close>

text \<open>
  \<open>Copy\<close> marshals the node with \<open>encoding/json\<close> and unmarshals the bytes into a
  new node. The library is not part of the repository; the model keeps what it does
  to an \<open>OptionModel\<close>. The bytes are a JSON object with the members \<open>title\<close>,
  \<open>env_key\<close>, \<open>type\<close>, \<open>value_map\<close> and \<open>config\<close>, modelled by the value of type
  \<open>json\<close>: an absent string member is the empty string, \<open>value_map\<close> is absent
  (\<open>None\<close>) or an object whose members are \<open>null\<close> or objects again. \<open>Components\<close>
  and \<open>Head\<close> carry the tag \<open>json:"-"\<close> and are not written. Strings are taken to be
  valid UTF-8, which the encoder writes and reads back unchanged.
\<close>

datatype json = JObject string string string "(string \<times> json option) list option" string







chapter \<open>Definitions for the statements\<close>

section \<open>The terminal predicate in the words of the spec\<close>

text \<open>
  These definitions follow the spec (sections 3 and 4.2), not the source; the closure
  \<open>walk\<close> is compared with them. A child trips the terminal predicate when it is
  \<open>nil\<close>, a config node or an empty placeholder. A node is terminal when it has no
  children or one of its children trips. \<open>last_children\<close> is the depth-first
  collection of section 4.2: a node without children is recorded; otherwise the
  children in front of the first one that trips are recursed into, in their order, and
  the node itself is recorded after them when some child trips.
\<close>

definition trips :: "heap \<Rightarrow> ref \<Rightarrow> bool" where
  "trips h childOption =
    (case childOption of None \<Rightarrow> True | Some c \<Rightarrow> IsConfigOption (h ! c) \<or> IsEmpty (h ! c))"

definition terminal :: "heap \<Rightarrow> addr \<Rightarrow> bool" where
  "terminal h n = (entries (h ! n) = [] \<or> (\<exists>(key, c) \<in> set (entries (h ! n)). trips h c))"

primrec last_children :: "nat \<Rightarrow> heap \<Rightarrow> addr \<Rightarrow> addr list option" where
  "last_children 0 h n = None"
| "last_children (Suc depth) h n =
    (if entries (h ! n) = [] then Some [n]
     else
       (case those (map (\<lambda>(key, c). case c of None \<Rightarrow> Some [] | Some a \<Rightarrow> last_children depth h a)
                     (takeWhile (\<lambda>(key, c). \<not> trips h c) (entries (h ! n)))) of
          None \<Rightarrow> None
        | Some found \<Rightarrow>
            Some (concat found @ (if \<exists>(key, c) \<in> set (entries (h ! n)). trips h c then [n] else []))))"

text \<open>
  The nodes below \<open>n\<close> form a structure without cycles whose height is at most
  \<open>depth\<close>: every tree has such a depth.
\<close>

primrec within_depth :: "nat \<Rightarrow> heap \<Rightarrow> addr \<Rightarrow> bool" where
  "within_depth 0 h n = False"
| "within_depth (Suc depth) h n =
    (\<forall>(key, c) \<in> set (entries (h ! n)). case c of None \<Rightarrow> True | Some a \<Rightarrow> within_depth depth h a)"

section \<open>Roots, reachable nodes and the attachments of a call\<close>


text \<open>The nodes that are reached from a node through the maps.\<close>

inductive reaches :: "heap \<Rightarrow> addr \<Rightarrow> addr \<Rightarrow> bool" for h :: heap and a :: addr where
  here: "reaches h a a"
| child: "reaches h a b \<Longrightarrow> (key, Some c) \<in> set (entries (h ! b)) \<Longrightarrow> reaches h a c"


section \<open>Helpers for the proofs\<close>

text \<open>
  For \<open>Copy\<close>: the encoding of one entry of a map, the normal form of one member of a
  document, and a node of a store whose path and head are empty and whose pointers
  are at or above \<open>lo\<close>.
\<close>

definition member :: "(addr \<Rightarrow> json option) \<Rightarrow> string \<times> ref \<Rightarrow> (string \<times> json option) option" where
  "member enc = (\<lambda>(key, child).
     case child of None \<Rightarrow> Some (key, None) | Some c \<Rightarrow> map_option (\<lambda>j. (key, Some j)) (enc c))"





chapter \<open>Inputs for the examples\<close>

section \<open>A strategy, option trees and decoders for the walk\<close>

text \<open>
  A selection strategy that answers the same value at every node, under the node's own
  environment key, and counts how often it was asked.
\<close>

definition answer :: "string \<Rightarrow> nat \<Rightarrow> WalkOption \<Rightarrow> nat \<times> (string + string \<times> string)" where
  "answer v asked option = (Suc asked, Inr (wEnvKey option, v))"

definition scheme_leaf :: WalkOption where
  "scheme_leaf = WalkOption ''Scheme'' ''SCHEME'' [] ''''"

definition routing_root :: WalkOption where
  "routing_root = WalkOption '''' '''' [(''app'', scheme_leaf)] ''''"

definition no_vars :: walk_vars where
  "no_vars = \<lparr>configPth = '''', appEnvs = []\<rparr>"

text \<open>
  A decoder that knows the empty text only: \<open>yaml.Unmarshal\<close> of the empty text
  reports no error and leaves the zero document it was given. The document has one
  further field of the app and one of the document, natural numbers here.
\<close>

definition zero_config :: "(nat, nat) BitriseDataModel" where
  "zero_config = \<lparr>App = \<lparr>Environments = [], app_fields = 0\<rparr>, data_fields = 0\<rparr>"

definition decode_empty :: "string \<Rightarrow> string + (nat, nat) BitriseDataModel" where
  "decode_empty text = (if text = '''' then Inr zero_config else Inl ''yaml: cannot decode'')"

text \<open>A decoder that gives a fixed document with an environment of its own.\<close>

definition stored_config :: "(nat, nat) BitriseDataModel" where
  "stored_config =
    \<lparr>App = \<lparr>Environments = [[(''OLD'', ''1'')]], app_fields = 7\<rparr>, data_fields = 5\<rparr>"

definition decode_stored :: "string \<Rightarrow> string + (nat, nat) BitriseDataModel" where
  "decode_stored text = Inr stored_config"

section \<open>Stores\<close>

text \<open>A node with a title and children, and a config node, as the constructors make them.\<close>

definition value_node ::
  "string \<Rightarrow> string \<Rightarrow> (string \<times> ref) list \<Rightarrow> string list \<Rightarrow> ref \<Rightarrow> OptionModel" where
  "value_node title envKey children components head =
    \<lparr>Title = title, EnvKey = envKey, Type = '''', ChildOptionMap = Some children,
     Config = '''', Components = components, Head = head\<rparr>"

definition config_node :: "string \<Rightarrow> string list \<Rightarrow> ref \<Rightarrow> OptionModel" where
  "config_node name components head =
    \<lparr>Title = '''', EnvKey = '''', Type = '''', ChildOptionMap = Some [],
     Config = name, Components = components, Head = head\<rparr>"

text \<open>
  A root with two value nodes below it, each with two config nodes; and the same
  store with the config names of the four leaves cleared.
\<close>

definition project_tree :: heap where
  "project_tree =
    [value_node ''Project'' ''PROJECT'' [(''a'', Some 1), (''b'', Some 2)] [] None,
     value_node ''Scheme'' ''SCHEME'' [(''x'', Some 3), (''y'', Some 4)] [''a''] (Some 0),
     value_node ''Scheme'' ''SCHEME'' [(''z'', Some 5), (''w'', Some 6)] [''b''] (Some 0),
     config_node ''c3'' [''a'', ''x''] (Some 0),
     config_node ''c4'' [''a'', ''y''] (Some 0),
     config_node ''c5'' [''b'', ''z''] (Some 0),
     config_node ''c6'' [''b'', ''w''] (Some 0)]"

definition project_tree_cleared :: heap where
  "project_tree_cleared =
    [value_node ''Project'' ''PROJECT'' [(''a'', Some 1), (''b'', Some 2)] [] None,
     value_node ''Scheme'' ''SCHEME'' [(''x'', Some 3), (''y'', Some 4)] [''a''] (Some 0),
     value_node ''Scheme'' ''SCHEME'' [(''z'', Some 5), (''w'', Some 6)] [''b''] (Some 0),
     config_node '''' [''a'', ''x''] (Some 0),
     config_node '''' [''a'', ''y''] (Some 0),
     config_node '''' [''b'', ''z''] (Some 0),
     config_node '''' [''b'', ''w''] (Some 0)]"

text \<open>
  A root whose children are a value node without children, a config node and a second
  value node without children, visited in this order.
\<close>

definition mixed_tree :: heap where
  "mixed_tree =
    [value_node ''Project'' ''PROJECT'' [(''a'', Some 1), (''b'', Some 2), (''c'', Some 3)] [] None,
     value_node ''Scheme'' ''SCHEME'' [] [''a''] (Some 0),
     config_node ''default'' [''b''] (Some 0),
     value_node ''Target'' ''TARGET'' [] [''c''] (Some 0)]"

text \<open>A root with a \<open>nil\<close> entry in its map.\<close>

definition nil_tree :: heap where
  "nil_tree = [value_node ''Project'' ''PROJECT'' [(''a'', None)] [] None]"

text \<open>
  A root over a node that has a title and a config name, which has a config node below
  it; and the stores after one and after two runs of \<open>RemoveConfigs\<close>.
\<close>

definition titled_config_tree :: heap where
  "titled_config_tree =
    [value_node ''Project'' ''PROJECT'' [(''a'', Some 1)] [] None,
     (value_node ''Scheme'' ''SCHEME'' [(''x'', Some 2)] [''a''] (Some 0))\<lparr>Config := ''both''\<rparr>,
     config_node ''default'' [''a'', ''x''] (Some 0)]"

definition titled_config_tree_once :: heap where
  "titled_config_tree_once =
    [value_node ''Project'' ''PROJECT'' [(''a'', Some 1)] [] None,
     value_node ''Scheme'' ''SCHEME'' [(''x'', Some 2)] [''a''] (Some 0),
     config_node ''default'' [''a'', ''x''] (Some 0)]"

definition titled_config_tree_twice :: heap where
  "titled_config_tree_twice =
    [value_node ''Project'' ''PROJECT'' [(''a'', Some 1)] [] None,
     value_node ''Scheme'' ''SCHEME'' [(''x'', Some 2)] [''a''] (Some 0),
     config_node '''' [''a'', ''x''] (Some 0)]"

text \<open>
  A root with a config node and a value node as children, the value node over a config
  node. The first store lists the config child of the root first. The second is the
  first after \<open>RemoveConfigs\<close>. The third is the second with the two entries of the
  root in the other order: the same Go map, visited in another order. The fourth is
  the third after \<open>RemoveConfigs\<close>.
\<close>

definition siblings_tree :: heap where
  "siblings_tree =
    [value_node ''Project'' ''PROJECT'' [(''b'', Some 2), (''a'', Some 1)] [] None,
     value_node ''Scheme'' ''SCHEME'' [(''x'', Some 3)] [''a''] (Some 0),
     config_node ''default'' [''b''] (Some 0),
     config_node ''other'' [''a'', ''x''] (Some 0)]"

definition siblings_tree_once :: heap where
  "siblings_tree_once =
    [value_node ''Project'' ''PROJECT'' [(''b'', Some 2), (''a'', Some 1)] [] None,
     value_node ''Scheme'' ''SCHEME'' [(''x'', Some 3)] [''a''] (Some 0),
     config_node '''' [''b''] (Some 0),
     config_node ''other'' [''a'', ''x''] (Some 0)]"

definition siblings_tree_once_reordered :: heap where
  "siblings_tree_once_reordered =
    [value_node ''Project'' ''PROJECT'' [(''a'', Some 1), (''b'', Some 2)] [] None,
     value_node ''Scheme'' ''SCHEME'' [(''x'', Some 3)] [''a''] (Some 0),
     config_node '''' [''b''] (Some 0),
     config_node ''other'' [''a'', ''x''] (Some 0)]"

definition siblings_tree_twice :: heap where
  "siblings_tree_twice =
    [value_node ''Project'' ''PROJECT'' [(''a'', Some 1), (''b'', Some 2)] [] None,
     value_node ''Scheme'' ''SCHEME'' [(''x'', Some 3)] [''a''] (Some 0),
     config_node '''' [''b''] (Some 0),
     config_node '''' [''a'', ''x''] (Some 0)]"







chapter \<open>Properties\<close>

section \<open>Properties of the walk and of the synthesis\<close>

text \<open>
  C2, as the spec states it: a walk in which the strategy returns a non-empty
  environment key and a value without a child ends with an error. The closure does
  the opposite. In the example the strategy answers \<open>app\<close> under the key \<open>SCHEME\<close> at a
  node without children: the closure appends the assignment and returns \<open>nil\<close>.
\<close>

theorem walkDepth_absent_child_is_success_example:
  "walkDepth (answer ''app'') scheme_leaf (no_vars, 0) =
    ((\<lparr>configPth = '''', appEnvs = [[(''SCHEME'', ''app'')]]\<rparr>, 1), None)"
  by (simp add: answer_def scheme_leaf_def no_vars_def)

text \<open>
  C2, amended: whenever the strategy returns a non-empty environment key and a value
  that has no entry in \<open>ValueMap\<close>, the walk ends at this node with the \<open>nil\<close> error
  (success), the assignment appended and \<open>configPth\<close> untouched. The closure is tail
  recursive, so the statement for a walk that starts at the node, with any values of
  the captured variables, covers every step of every walk.
\<close>

theorem walkDepth_absent_child_returns_nil:
  assumes "askForValue io option = (io', Inr (optionEnvKey, selectedValue))"
    and "optionEnvKey \<noteq> ''''"
    and "map_of (ValueMap option) selectedValue = None"
  shows "walkDepth askForValue option (vars, io) =
    ((vars\<lparr>appEnvs := appEnvs vars @ [[(optionEnvKey, selectedValue)]]\<rparr>, io'), None)"
  using assms by simp

theorem walkDepth_absent_child_returns_nil_witness:
  "answer ''app'' 0 scheme_leaf = (1, Inr (''SCHEME'', ''app'')) \<and> ''SCHEME'' \<noteq> '''' \<and>
   map_of (ValueMap scheme_leaf) ''app'' = None \<and>
   walkDepth (answer ''app'') scheme_leaf (no_vars, 0) =
    ((no_vars\<lparr>appEnvs := appEnvs no_vars @ [[(''SCHEME'', ''app'')]]\<rparr>, 1), None)"
proof -
  have a: "answer ''app'' 0 scheme_leaf = (1, Inr (''SCHEME'', ''app''))"
    by (simp add: answer_def scheme_leaf_def)
  have b: "''SCHEME'' \<noteq> ''''"
    by simp
  have c: "map_of (ValueMap scheme_leaf) ''app'' = None"
    by (simp add: scheme_leaf_def)
  show ?thesis
    using a b c
      walkDepth_absent_child_returns_nil
        [of "answer ''app''" 0 scheme_leaf 1 "''SCHEME''" "''app''" no_vars, OF a b c]
    by blast
qed

text \<open>
  C3, as the spec states it: a config name that is absent from the map of the scanner
  makes the synthesis fail. The loop body reads the Go map without the second result,
  gets the empty text and decodes it. In the example the name \<open>missing\<close> is not
  registered and a document comes out.
\<close>

theorem synthesize_unregistered_name_example:
  "map_of [(''default'', ''format_version: 1'')] ''missing'' = None \<and>
   synthesize decode_empty [(''default'', ''format_version: 1'')]
     \<lparr>configPth = ''missing'', appEnvs = []\<rparr> = Inr zero_config"
  by (simp add: synthesize_def lookupConfig_def decode_empty_def zero_config_def)

text \<open>
  C3, amended: for a config name that is absent from the map the synthesis decodes the
  empty text. It fails exactly when the decoder refuses the empty text, with the
  decoder's error, and otherwise returns the decoded document with the collected
  environments.
\<close>

theorem synthesize_unregistered_name:
  assumes "map_of configMap (configPth vars) = None"
  shows "synthesize yaml_Unmarshal configMap vars =
    (case yaml_Unmarshal '''' of
       Inl err \<Rightarrow> Inl (''Failed to unmarshal config, error: '' @ err)
     | Inr config \<Rightarrow> Inr (config\<lparr>App := (App config)\<lparr>Environments := appEnvs vars\<rparr>\<rparr>))"
  using assms by (simp add: synthesize_def lookupConfig_def)

theorem synthesize_unregistered_name_witness:
  "map_of [(''default'', ''format_version: 1'')] (configPth (no_vars\<lparr>configPth := ''missing''\<rparr>)) = None \<and>
   synthesize decode_empty [(''default'', ''format_version: 1'')] (no_vars\<lparr>configPth := ''missing''\<rparr>)
     = Inr zero_config"
proof -
  have a: "map_of [(''default'', ''format_version: 1'')]
      (configPth (no_vars\<lparr>configPth := ''missing''\<rparr>)) = None"
    by simp
  show ?thesis
    using a synthesize_unregistered_name [OF a, of decode_empty]
    by (simp add: decode_empty_def zero_config_def no_vars_def)
qed

text \<open>
  C4, as the spec states it: after a step in which the strategy returns the empty
  environment key no child is visited and the strategy is not asked again. The closure
  looks the selected value up in \<open>ValueMap\<close> in either case. In the example the root
  has the empty key and a child under \<open>app\<close>: the strategy is asked twice, and the
  assignment of the child is collected.
\<close>

theorem walkDepth_empty_key_goes_on_example:
  "answer ''app'' 0 routing_root = (1, Inr ('''', ''app'')) \<and>
   walkDepth (answer ''app'') routing_root (no_vars, 0) =
    ((\<lparr>configPth = ''app'', appEnvs = [[(''SCHEME'', ''app'')]]\<rparr>, 2), None)"
  by (simp add: answer_def routing_root_def scheme_leaf_def no_vars_def)

text \<open>
  C4, amended: at a step in which the strategy returns the empty environment key the
  selected value is stored as \<open>configPth\<close>. The walk stops there, with the \<open>nil\<close>
  error, when \<open>ValueMap\<close> has no entry for the selected value; when it has one the walk
  goes on into that child.
\<close>

theorem walkDepth_empty_key:
  assumes "askForValue io option = (io', Inr ('''', selectedValue))"
  shows "walkDepth askForValue option (vars, io) =
    (case map_of (ValueMap option) selectedValue of
       None \<Rightarrow> ((vars\<lparr>configPth := selectedValue\<rparr>, io'), None)
     | Some nestedOptions \<Rightarrow>
         walkDepth askForValue nestedOptions (vars\<lparr>configPth := selectedValue\<rparr>, io'))"
  using assms by (simp add: Let_def)

theorem walkDepth_empty_key_witness:
  "answer ''app'' 0 routing_root = (1, Inr ('''', ''app'')) \<and>
   map_of (ValueMap routing_root) ''app'' = Some scheme_leaf \<and>
   walkDepth (answer ''app'') routing_root (no_vars, 0) =
     walkDepth (answer ''app'') scheme_leaf (no_vars\<lparr>configPth := ''app''\<rparr>, 1)"
proof -
  have a: "answer ''app'' 0 routing_root = (1, Inr ('''', ''app''))"
    by (simp add: answer_def routing_root_def)
  have b: "map_of (ValueMap routing_root) ''app'' = Some scheme_leaf"
    by (simp add: routing_root_def)
  show ?thesis
    using a b walkDepth_empty_key [of "answer ''app''" 0 routing_root 1 "''app''" no_vars, OF a]
    by simp
qed

text \<open>
  C9: when the text decodes, the synthesis returns the decoded document with
  \<open>App.Environments\<close> equal to the collected assignments, whatever the document held
  there before, and with every other field of the app and of the document as decoded.
\<close>

theorem synthesize_replaces_environments:
  assumes "yaml_Unmarshal (lookupConfig configMap (configPth vars)) = Inr config"
  shows "\<exists>config'. synthesize yaml_Unmarshal configMap vars = Inr config' \<and>
    Environments (App config') = appEnvs vars \<and>
    app_fields (App config') = app_fields (App config) \<and>
    data_fields config' = data_fields config"
  using assms by (simp add: synthesize_def)

theorem synthesize_replaces_environments_witness:
  "decode_stored (lookupConfig [(''default'', ''app: {}'')]
      (configPth \<lparr>configPth = ''default'', appEnvs = [[(''SCHEME'', ''app'')]]\<rparr>)) = Inr stored_config \<and>
   synthesize decode_stored [(''default'', ''app: {}'')]
      \<lparr>configPth = ''default'', appEnvs = [[(''SCHEME'', ''app'')]]\<rparr> =
     Inr \<lparr>App = \<lparr>Environments = [[(''SCHEME'', ''app'')]], app_fields = 7\<rparr>, data_fields = 5\<rparr>"
proof -
  have a: "decode_stored (lookupConfig [(''default'', ''app: {}'')]
      (configPth \<lparr>configPth = ''default'', appEnvs = [[(''SCHEME'', ''app'')]]\<rparr>)) = Inr stored_config"
    by (simp add: decode_stored_def)
  obtain config' where
    "synthesize decode_stored [(''default'', ''app: {}'')]
       \<lparr>configPth = ''default'', appEnvs = [[(''SCHEME'', ''app'')]]\<rparr> = Inr config'"
    "Environments (App config') = [[(''SCHEME'', ''app'')]]"
    "app_fields (App config') = app_fields (App stored_config)"
    "data_fields config' = data_fields stored_config"
    using synthesize_replaces_environments
        [of decode_stored "[(''default'', ''app: {}'')]"
          "\<lparr>configPth = ''default'', appEnvs = [[(''SCHEME'', ''app'')]]\<rparr>" stored_config, OF a]
    by auto
  then show ?thesis
    using a by (cases config') (auto simp: stored_config_def)
qed

lemmas example_defs =
  value_node_def config_node_def entries_def IsConfigOption_def IsEmpty_def IsValueOption_def
  LastChilds_def RemoveConfigs_def trips_def terminal_def eval_nat_numeral

section \<open>Properties of \<open>LastChilds\<close> and \<open>RemoveConfigs\<close>\<close>

subsection \<open>The closure \<open>walk\<close> is the collection of the spec\<close>

lemma scan_children_spec:
  assumes "\<And>c acc. w c acc = map_option ((@) acc) (f c)"
  shows "scan_children w h opt es acc =
    (case those (map (\<lambda>(key, c). case c of None \<Rightarrow> Some [] | Some a \<Rightarrow> f a)
                  (takeWhile (\<lambda>(key, c). \<not> trips h c) es)) of
       None \<Rightarrow> None
     | Some found \<Rightarrow>
         Some (acc @ concat found @ (if \<exists>(key, c) \<in> set es. trips h c then [opt] else [])))"
proof (induction es arbitrary: acc)
  case Nil
  then show ?case by simp
next
  case (Cons e es)
  obtain key c where e: "e = (key, c)" by (cases e)
  show ?case
  proof (cases "trips h c")
    case True
    then show ?thesis using e by (auto simp: trips_def split: option.splits)
  next
    case False
    then obtain a where a: "c = Some a" "\<not> IsConfigOption (h ! a)" "\<not> IsEmpty (h ! a)"
      by (auto simp: trips_def split: option.splits)
    show ?thesis
    proof (cases "f a")
      case None
      then show ?thesis using e a False assms by simp
    next
      case (Some ls)
      then show ?thesis using e a False assms Cons.IH [of "acc @ ls"]
        by (auto split: option.splits)
    qed
  qed
qed

lemma walk_spec: "walk depth h opt acc = map_option ((@) acc) (last_children depth h opt)"
proof (induction depth arbitrary: opt acc)
  case 0
  then show ?case by simp
next
  case (Suc depth)
  show ?case
    using scan_children_spec [of "walk depth h" "last_children depth h" h opt "entries (h ! opt)" acc, OF Suc.IH]
    by (auto split: option.splits)
qed

lemma LastChilds_spec: "LastChilds depth h option = last_children depth h option"
  using walk_spec [of depth h option "[]"]
  by (cases "last_children depth h option") (simp_all add: LastChilds_def)

lemma those_map_Some:
  assumes "\<And>x. x \<in> set xs \<Longrightarrow> \<exists>y. f x = Some y"
  shows "\<exists>ys. those (map f xs) = Some ys"
  using assms by (induction xs) fastforce+

lemma those_map_mem:
  "those (map f xs) = Some ys \<Longrightarrow> y \<in> set ys \<Longrightarrow> \<exists>x \<in> set xs. f x = Some y"
  by (induction xs arbitrary: ys) (auto split: option.splits)

lemma last_children_total:
  "within_depth depth h n \<Longrightarrow> \<exists>found. last_children depth h n = Some found"
proof (induction depth arbitrary: n)
  case 0
  then show ?case by simp
next
  case (Suc depth)
  let ?f = "\<lambda>(key, c). case c of None \<Rightarrow> Some [] | Some a \<Rightarrow> last_children depth h a"
  have "\<exists>y. ?f x = Some y" if "x \<in> set (takeWhile (\<lambda>(key, c). \<not> trips h c) (entries (h ! n)))" for x
  proof -
    from that have "x \<in> set (entries (h ! n))"
      by (rule set_takeWhileD [THEN conjunct1])
    then show ?thesis
      using Suc.prems Suc.IH by (cases x) (auto split: option.splits)
  qed
  then obtain ys where
    "those (map ?f (takeWhile (\<lambda>(key, c). \<not> trips h c) (entries (h ! n)))) = Some ys"
    using those_map_Some by blast
  then show ?case by simp
qed

lemma last_children_terminal:
  "last_children depth h n = Some found \<Longrightarrow> m \<in> set found \<Longrightarrow> terminal h m"
proof (induction depth arbitrary: n found)
  case 0
  then show ?case by simp
next
  case (Suc depth)
  show ?case
  proof (cases "entries (h ! n) = []")
    case True
    then show ?thesis using Suc.prems by (auto simp: terminal_def)
  next
    case False
    let ?f = "\<lambda>(key, c). case c of None \<Rightarrow> Some [] | Some a \<Rightarrow> last_children depth h a"
    let ?pre = "takeWhile (\<lambda>(key, c). \<not> trips h c) (entries (h ! n))"
    from False Suc.prems(1) obtain ls where ls: "those (map ?f ?pre) = Some ls"
      and found: "found = concat ls @ (if \<exists>(key, c) \<in> set (entries (h ! n)). trips h c then [n] else [])"
      by (auto split: option.splits)
    from Suc.prems(2) found consider "m \<in> set (concat ls)"
      | "m = n" "\<exists>(key, c) \<in> set (entries (h ! n)). trips h c"
      by (auto split: if_splits)
    then show ?thesis
    proof cases
      case 1
      then obtain l where l: "l \<in> set ls" "m \<in> set l" by auto
      with ls obtain x where x: "x \<in> set ?pre" "?f x = Some l"
        using those_map_mem by fastforce
      obtain key c where xc: "x = (key, c)" by (cases x)
      show ?thesis
      proof (cases c)
        case None
        then show ?thesis using x xc l by simp
      next
        case (Some a)
        then have "last_children depth h a = Some l" using x xc by simp
        then show ?thesis using l Suc.IH by blast
      qed
    next
      case 2
      then show ?thesis by (simp add: terminal_def)
    qed
  qed
qed

text \<open>
  C8: for every store, node and depth bound, \<open>LastChilds\<close> returns what the collection
  of the spec returns: a node without children is recorded; otherwise the children are
  scanned in order, the ones in front of the first child that is \<open>nil\<close>, a config node
  or an empty placeholder are recursed into, and at that child the current node is
  recorded and the scan of the node ends. Every recorded node satisfies the terminal
  predicate, and on a structure without cycles whose height is within the bound a
  result is returned.
\<close>

theorem LastChilds_is_asymmetric_scan:
  "LastChilds depth h option = last_children depth h option \<and>
   (\<forall>found. LastChilds depth h option = Some found \<longrightarrow> (\<forall>n \<in> set found. terminal h n)) \<and>
   (within_depth depth h option \<longrightarrow> (\<exists>found. LastChilds depth h option = Some found))"
  using LastChilds_spec [of depth h option] last_children_terminal [of depth h option]
    last_children_total [of depth h option]
  by auto

theorem LastChilds_is_asymmetric_scan_witness:
  "within_depth 2 mixed_tree 0 \<and>
   LastChilds 2 mixed_tree 0 = Some [1, 0] \<and>
   last_children 2 mixed_tree 0 = Some [1, 0] \<and>
   terminal mixed_tree 1 \<and> terminal mixed_tree 0"
proof -
  have a: "within_depth 2 mixed_tree 0"
    by (simp add: mixed_tree_def example_defs)
  have b: "LastChilds 2 mixed_tree 0 = Some [1, 0]"
    by (simp add: mixed_tree_def example_defs)
  show ?thesis
    using a b LastChilds_is_asymmetric_scan [of 2 mixed_tree 0] by auto
qed

subsection \<open>\<open>RemoveConfigs\<close> on a \<open>nil\<close> child\<close>

lemma entries_clear [simp]: "entries (h[c := (h ! c)\<lparr>Config := v\<rparr>] ! a) = entries (h ! a)"
proof (cases "c < length h")
  case True
  then show ?thesis by (cases "a = c") (simp_all add: entries_def)
next
  case False
  then show ?thesis by (simp add: list_update_beyond)
qed

lemma clear_configs_entries:
  "clear_configs h es = Inr h' \<Longrightarrow> entries (h' ! a) = entries (h ! a)"
  by (induction h es rule: clear_configs.induct) (auto split: option.splits)

lemma clear_configs_panic:
  "clear_configs h es = Inl p \<Longrightarrow> p = NilPointerDereference"
  by (induction h es rule: clear_configs.induct) (auto split: option.splits)

lemma clear_configs_nil:
  "(key, None) \<in> set es \<Longrightarrow> clear_configs h es = Inl NilPointerDereference"
  by (induction h es rule: clear_configs.induct) (auto split: option.splits)

lemma remove_configs_nil:
  "child \<in> set lastChilds \<Longrightarrow> (key, None) \<in> set (entries (h ! child)) \<Longrightarrow>
    remove_configs h lastChilds = Inl NilPointerDereference"
proof (induction lastChilds arbitrary: h)
  case Nil
  then show ?case by simp
next
  case (Cons l ls)
  show ?case
  proof (cases "clear_configs h (entries (h ! l))")
    case (Inl p)
    then show ?thesis using clear_configs_panic by fastforce
  next
    case (Inr h')
    with Cons.prems clear_configs_nil have "child \<noteq> l" by fastforce
    with Cons.prems have "child \<in> set ls" by simp
    moreover have "(key, None) \<in> set (entries (h' ! child))"
      using Cons.prems(2) clear_configs_entries [OF Inr] by simp
    ultimately show ?thesis using Cons.IH Inr by simp
  qed
qed

text \<open>
  C10: when \<open>LastChilds\<close> returns a node whose map holds a \<open>nil\<close> entry,
  \<open>RemoveConfigs\<close> panics with a nil pointer dereference, although that node
  satisfies the terminal predicate.
\<close>

theorem RemoveConfigs_nil_child_panics:
  assumes "LastChilds depth h option = Some lastChilds"
    and "child \<in> set lastChilds"
    and "(key, None) \<in> set (entries (h ! child))"
  shows "terminal h child \<and> RemoveConfigs depth h option = Some (Inl NilPointerDereference)"
proof -
  have "trips h None" by (simp add: trips_def)
  then have "terminal h child" using assms(3) by (auto simp: terminal_def)
  then show ?thesis using assms remove_configs_nil by (simp add: RemoveConfigs_def)
qed

theorem RemoveConfigs_nil_child_panics_witness:
  "LastChilds 1 nil_tree 0 = Some [0] \<and> 0 \<in> set [0::nat] \<and>
   (''a'', None) \<in> set (entries (nil_tree ! 0)) \<and> terminal nil_tree 0 \<and>
   RemoveConfigs 1 nil_tree 0 = Some (Inl NilPointerDereference)"
proof -
  have a: "LastChilds 1 nil_tree 0 = Some [0]"
    by (simp add: nil_tree_def example_defs)
  have b: "0 \<in> set [0::nat]"
    by simp
  have c: "(''a'', None) \<in> set (entries (nil_tree ! 0))"
    by (simp add: nil_tree_def example_defs)
  show ?thesis
    using a b c RemoveConfigs_nil_child_panics [OF a b c] by blast
qed

subsection \<open>\<open>RemoveConfigs\<close> on non-\<open>nil\<close> children\<close>

lemma clear_configs_frame:
  "clear_configs h es = Inr h' \<Longrightarrow>
    length h' = length h \<and>
    (\<forall>a. h' ! a = h ! a \<or> ((\<exists>key. (key, Some a) \<in> set es) \<and> h' ! a = (h ! a)\<lparr>Config := ''''\<rparr>))"
proof (induction h es arbitrary: h' rule: clear_configs.induct)
  case (1 h)
  then show ?case by simp
next
  case (2 h key child rest)
  from "2.prems" obtain c where c: "child = Some c"
    and run: "clear_configs (h[c := (h ! c)\<lparr>Config := ''''\<rparr>]) rest = Inr h'"
    by (auto split: option.splits)
  let ?h1 = "h[c := (h ! c)\<lparr>Config := ''''\<rparr>]"
  from "2.IH" [OF c run] have len: "length h' = length ?h1"
    and fr: "\<And>a. h' ! a = ?h1 ! a \<or> ((\<exists>key. (key, Some a) \<in> set rest) \<and> h' ! a = (?h1 ! a)\<lparr>Config := ''''\<rparr>)"
    by blast+
  have h1: "?h1 ! a = h ! a \<or> (a = c \<and> ?h1 ! a = (h ! a)\<lparr>Config := ''''\<rparr>)" for a
    by (cases "c < length h"; cases "a = c") (simp_all add: list_update_beyond)
  have "h' ! a = h ! a \<or> ((\<exists>key'. (key', Some a) \<in> set ((key, child) # rest)) \<and> h' ! a = (h ! a)\<lparr>Config := ''''\<rparr>)" for a
    using fr [of a] h1 [of a] c by auto
  then show ?case using len by simp
qed

lemma clear_configs_clears:
  "clear_configs h es = Inr h' \<Longrightarrow> (key, Some a) \<in> set es \<Longrightarrow> a < length h \<Longrightarrow>
    Config (h' ! a) = ''''"
proof (induction h es arbitrary: h' rule: clear_configs.induct)
  case (1 h)
  then show ?case by simp
next
  case (2 h key' child rest)
  from "2.prems" obtain c where c: "child = Some c"
    and run: "clear_configs (h[c := (h ! c)\<lparr>Config := ''''\<rparr>]) rest = Inr h'"
    by (auto split: option.splits)
  let ?h1 = "h[c := (h ! c)\<lparr>Config := ''''\<rparr>]"
  show ?case
  proof (cases "a = c")
    case True
    then have "Config (?h1 ! a) = ''''" using "2.prems"(3) by simp
    moreover have "h' ! a = ?h1 ! a \<or> h' ! a = (?h1 ! a)\<lparr>Config := ''''\<rparr>"
      using clear_configs_frame [OF run] by blast
    ultimately show ?thesis by auto
  next
    case False
    then have "(key, Some a) \<in> set rest" using "2.prems"(2) c by auto
    then show ?thesis using "2.IH" [OF c run] "2.prems"(3) by simp
  qed
qed

lemma clear_configs_ok:
  "\<forall>(key, c) \<in> set es. c \<noteq> None \<Longrightarrow> \<exists>h'. clear_configs h es = Inr h'"
  by (induction h es rule: clear_configs.induct) (auto split: option.splits)

lemma remove_configs_frame:
  "remove_configs h ns = Inr h' \<Longrightarrow>
    length h' = length h \<and>
    (\<forall>a. h' ! a = h ! a \<or>
       ((\<exists>n \<in> set ns. \<exists>key. (key, Some a) \<in> set (entries (h ! n))) \<and> h' ! a = (h ! a)\<lparr>Config := ''''\<rparr>))"
proof (induction ns arbitrary: h)
  case Nil
  then show ?case by simp
next
  case (Cons n ns)
  from Cons.prems obtain h1 where h1: "clear_configs h (entries (h ! n)) = Inr h1"
    and run: "remove_configs h1 ns = Inr h'"
    by (auto split: sum.splits)
  note f1 = clear_configs_frame [OF h1]
  note f2 = Cons.IH [OF run]
  have ent: "entries (h1 ! m) = entries (h ! m)" for m
    using clear_configs_entries [OF h1] by simp
  have "h' ! a = h ! a \<or>
       ((\<exists>m \<in> set (n # ns). \<exists>key. (key, Some a) \<in> set (entries (h ! m))) \<and> h' ! a = (h ! a)\<lparr>Config := ''''\<rparr>)" for a
  proof -
    have a1: "h1 ! a = h ! a \<or> ((\<exists>key. (key, Some a) \<in> set (entries (h ! n))) \<and> h1 ! a = (h ! a)\<lparr>Config := ''''\<rparr>)"
      using f1 by blast
    have a2: "h' ! a = h1 ! a \<or>
       ((\<exists>m \<in> set ns. \<exists>key. (key, Some a) \<in> set (entries (h ! m))) \<and> h' ! a = (h1 ! a)\<lparr>Config := ''''\<rparr>)"
      using f2 ent by simp
    show ?thesis using a1 a2 by auto
  qed
  then show ?case using f1 f2 by simp
qed

lemma remove_configs_entries:
  assumes "remove_configs h ns = Inr h'"
  shows "entries (h' ! a) = entries (h ! a)"
proof -
  have "h' ! a = h ! a \<or> h' ! a = (h ! a)\<lparr>Config := ''''\<rparr>"
    using remove_configs_frame [OF assms] by blast
  then show ?thesis by (auto simp: entries_def)
qed

lemma remove_configs_clears:
  "remove_configs h ns = Inr h' \<Longrightarrow> n \<in> set ns \<Longrightarrow> (key, Some a) \<in> set (entries (h ! n)) \<Longrightarrow>
    a < length h \<Longrightarrow> Config (h' ! a) = ''''"
proof (induction ns arbitrary: h)
  case Nil
  then show ?case by simp
next
  case (Cons m ns)
  from Cons.prems(1) obtain h1 where h1: "clear_configs h (entries (h ! m)) = Inr h1"
    and run: "remove_configs h1 ns = Inr h'"
    by (auto split: sum.splits)
  have ent: "entries (h1 ! x) = entries (h ! x)" for x
    using clear_configs_entries [OF h1] by simp
  have len: "length h1 = length h"
    using clear_configs_frame [OF h1] by simp
  show ?case
  proof (cases "n = m")
    case True
    then have "Config (h1 ! a) = ''''"
      using clear_configs_clears [OF h1] Cons.prems by simp
    moreover have "h' ! a = h1 ! a \<or> h' ! a = (h1 ! a)\<lparr>Config := ''''\<rparr>"
      using remove_configs_frame [OF run] by blast
    ultimately show ?thesis by auto
  next
    case False
    then have "n \<in> set ns" using Cons.prems(2) by simp
    then show ?thesis using Cons.IH [OF run] Cons.prems(3,4) ent len by simp
  qed
qed

lemma remove_configs_ok:
  "\<forall>n \<in> set ns. \<forall>(key, c) \<in> set (entries (h ! n)). c \<noteq> None \<Longrightarrow> \<exists>h'. remove_configs h ns = Inr h'"
proof (induction ns arbitrary: h)
  case Nil
  then show ?case by simp
next
  case (Cons m ns)
  then obtain h1 where h1: "clear_configs h (entries (h ! m)) = Inr h1"
    using clear_configs_ok [of "entries (h ! m)" h] by auto
  have "entries (h1 ! x) = entries (h ! x)" for x
    using clear_configs_entries [OF h1] by simp
  then show ?case using Cons h1 by simp
qed

lemma clear_configs_again:
  "\<forall>(key, c) \<in> set es. \<exists>a. c = Some a \<and> Config (h ! a) = '''' \<Longrightarrow> clear_configs h es = Inr h"
proof (induction es)
  case Nil
  then show ?case by simp
next
  case (Cons e es)
  obtain key c where e: "e = (key, c)" by (cases e)
  with Cons.prems obtain a where a: "c = Some a" "Config (h ! a) = ''''" by auto
  then have "(h ! a)\<lparr>Config := ''''\<rparr> = h ! a" by (cases "h ! a") simp
  then have "h[a := (h ! a)\<lparr>Config := ''''\<rparr>] = h" by (simp only: list_update_id)
  then show ?case using Cons e a by simp
qed

lemma remove_configs_again:
  "\<forall>n \<in> set ns. \<forall>(key, c) \<in> set (entries (h ! n)). \<exists>a. c = Some a \<and> Config (h ! a) = '''' \<Longrightarrow>
    remove_configs h ns = Inr h"
  by (induction ns) (simp_all add: clear_configs_again)

lemma scan_children_cong:
  assumes "\<And>c acc. w' c acc = w c acc"
    and "\<And>a. IsConfigOption (h' ! a) \<or> IsEmpty (h' ! a) \<longleftrightarrow> IsConfigOption (h ! a) \<or> IsEmpty (h ! a)"
  shows "scan_children w' h' opt es acc = scan_children w h opt es acc"
proof (induction es arbitrary: acc)
  case Nil
  then show ?case by simp
next
  case (Cons e es)
  obtain key c where e: "e = (key, c)" by (cases e)
  show ?case
  proof (cases c)
    case None
    then show ?thesis using e by simp
  next
    case (Some a)
    then show ?thesis using e assms(1) assms(2) [of a] Cons.IH
      by (auto split: option.splits)
  qed
qed

lemma walk_cleared:
  assumes "\<And>a. entries (h' ! a) = entries (h ! a)"
    and "\<And>a. IsConfigOption (h' ! a) \<or> IsEmpty (h' ! a) \<longleftrightarrow> IsConfigOption (h ! a) \<or> IsEmpty (h ! a)"
  shows "walk depth h' n acc = walk depth h n acc"
proof (induction depth arbitrary: n acc)
  case 0
  then show ?case by simp
next
  case (Suc depth)
  show ?case
    using scan_children_cong [of "walk depth h'" "walk depth h" h' h n "entries (h ! n)" acc, OF Suc.IH assms(2)]
      assms(1)
    by simp
qed

text \<open>
  C6, as the spec states it: on a tree whose last-child nodes have non-\<open>nil\<close> children
  only, a second run of \<open>RemoveConfigs\<close> changes nothing. Two examples show a second
  run that clears one more config name; in both every child of every last-child node
  is non-\<open>nil\<close>.

  In the first the child of the root has a title and a config name. The first run
  records the root and clears the config name of that child; the child is then a value
  node, so the second run walks into it, records it and clears the config name of the
  node below it.

  In the second the root has a config child and a value child. The first run meets
  the config child first, records the root and stops. The store of the second run
  holds the same maps, and the loop over the map of the root meets the value child
  first (Go does not keep the order of a map from one loop to the next): the value
  child is recorded as well and the config name below it is cleared.
\<close>

theorem RemoveConfigs_second_run_changes_example:
  "LastChilds 2 titled_config_tree 0 = Some [0] \<and>
   entries (titled_config_tree ! 0) = [(''a'', Some 1)] \<and>
   RemoveConfigs 2 titled_config_tree 0 = Some (Inr titled_config_tree_once) \<and>
   RemoveConfigs 2 titled_config_tree_once 0 = Some (Inr titled_config_tree_twice) \<and>
   Config (titled_config_tree_once ! 2) = ''default'' \<and>
   Config (titled_config_tree_twice ! 2) = '''' \<and>
   LastChilds 2 siblings_tree 0 = Some [0] \<and>
   entries (siblings_tree ! 0) = [(''b'', Some 2), (''a'', Some 1)] \<and>
   RemoveConfigs 2 siblings_tree 0 = Some (Inr siblings_tree_once) \<and>
   siblings_tree_once_reordered =
     siblings_tree_once[0 := (siblings_tree_once ! 0)
       \<lparr>ChildOptionMap := Some (rev (entries (siblings_tree_once ! 0)))\<rparr>] \<and>
   RemoveConfigs 2 siblings_tree_once_reordered 0 = Some (Inr siblings_tree_twice) \<and>
   Config (siblings_tree_once_reordered ! 3) = ''other'' \<and>
   Config (siblings_tree_twice ! 3) = ''''"
  by (simp add: titled_config_tree_def titled_config_tree_once_def titled_config_tree_twice_def
      siblings_tree_def siblings_tree_once_def siblings_tree_once_reordered_def
      siblings_tree_twice_def example_defs)

text \<open>
  C6, amended: let \<open>LastChilds\<close> return \<open>lastChilds\<close>, let every entry of the maps of
  these nodes be a pointer to an allocated node (none is \<open>nil\<close>), and let none of
  these children have both a title and a config name. Then \<open>RemoveConfigs\<close> returns
  without a panic, every child of every node of \<open>lastChilds\<close> has the empty config
  name afterwards, and a second run that visits the entries of every map in the order
  of the first run finds the same last children and leaves the store as it is.
\<close>

theorem RemoveConfigs_clears_and_is_idempotent:
  assumes "LastChilds depth h option = Some lastChilds"
    and "\<forall>n \<in> set lastChilds. \<forall>(key, c) \<in> set (entries (h ! n)). \<exists>a. c = Some a \<and> a < length h"
    and "\<forall>n \<in> set lastChilds. \<forall>(key, c) \<in> set (entries (h ! n)). \<forall>a. c = Some a \<longrightarrow>
           \<not> (Title (h ! a) \<noteq> '''' \<and> Config (h ! a) \<noteq> '''')"
  shows "\<exists>h'. RemoveConfigs depth h option = Some (Inr h') \<and>
    (\<forall>n \<in> set lastChilds. \<forall>(key, c) \<in> set (entries (h' ! n)). \<exists>a. c = Some a \<and> Config (h' ! a) = '''') \<and>
    LastChilds depth h' option = Some lastChilds \<and>
    RemoveConfigs depth h' option = Some (Inr h')"
proof -
  have "\<forall>n \<in> set lastChilds. \<forall>(key, c) \<in> set (entries (h ! n)). c \<noteq> None"
    using assms(2) by fastforce
  then obtain h' where run: "remove_configs h lastChilds = Inr h'"
    using remove_configs_ok by blast
  have ent: "entries (h' ! a) = entries (h ! a)" for a
    using remove_configs_entries [OF run] .
  have cleared: "\<forall>n \<in> set lastChilds. \<forall>(key, c) \<in> set (entries (h' ! n)). \<exists>a. c = Some a \<and> Config (h' ! a) = ''''"
  proof (intro ballI, clarify)
    fix n key c
    assume n: "n \<in> set lastChilds" and kc: "(key, c) \<in> set (entries (h' ! n))"
    then have kc': "(key, c) \<in> set (entries (h ! n))" using ent by simp
    with n assms(2) obtain a where a: "c = Some a" "a < length h" by fastforce
    then have "Config (h' ! a) = ''''"
      using remove_configs_clears [OF run n] kc' by simp
    then show "\<exists>a. c = Some a \<and> Config (h' ! a) = ''''" using a by simp
  qed
  have same: "IsConfigOption (h' ! a) \<or> IsEmpty (h' ! a) \<longleftrightarrow> IsConfigOption (h ! a) \<or> IsEmpty (h ! a)" for a
  proof -
    consider "h' ! a = h ! a"
      | n key where "n \<in> set lastChilds" "(key, Some a) \<in> set (entries (h ! n))"
          "h' ! a = (h ! a)\<lparr>Config := ''''\<rparr>"
      using remove_configs_frame [OF run] by blast
    then show ?thesis
    proof cases
      case 1
      then show ?thesis by simp
    next
      case 2
      then have "\<not> (Title (h ! a) \<noteq> '''' \<and> Config (h ! a) \<noteq> '''')"
        using assms(3) by fastforce
      then show ?thesis using 2(3)
        by (auto simp: IsConfigOption_def IsEmpty_def IsValueOption_def)
    qed
  qed
  have last': "LastChilds depth h' option = Some lastChilds"
    using walk_cleared [of h' h depth option "[]", OF ent same] assms(1)
    by (simp add: LastChilds_def)
  have "remove_configs h' lastChilds = Inr h'"
    using remove_configs_again cleared by blast
  then show ?thesis
    using run cleared last' assms(1) by (simp add: RemoveConfigs_def)
qed

theorem RemoveConfigs_clears_and_is_idempotent_witness:
  "LastChilds 3 project_tree 0 = Some [1, 2] \<and>
   RemoveConfigs 3 project_tree 0 = Some (Inr project_tree_cleared) \<and>
   Config (project_tree_cleared ! 3) = '''' \<and> Config (project_tree_cleared ! 4) = '''' \<and>
   Config (project_tree_cleared ! 5) = '''' \<and> Config (project_tree_cleared ! 6) = '''' \<and>
   LastChilds 3 project_tree_cleared 0 = Some [1, 2] \<and>
   RemoveConfigs 3 project_tree_cleared 0 = Some (Inr project_tree_cleared)"
proof -
  have a: "LastChilds 3 project_tree 0 = Some [1, 2]"
    by (simp add: project_tree_def example_defs)
  have b: "\<forall>n \<in> set [1, 2]. \<forall>(key, c) \<in> set (entries (project_tree ! n)).
      \<exists>a. c = Some a \<and> a < length project_tree"
    by (simp add: project_tree_def example_defs)
  have c: "\<forall>n \<in> set [1, 2]. \<forall>(key, c) \<in> set (entries (project_tree ! n)). \<forall>a. c = Some a \<longrightarrow>
      \<not> (Title (project_tree ! a) \<noteq> '''' \<and> Config (project_tree ! a) \<noteq> '''')"
    by (simp add: project_tree_def example_defs)
  have d: "RemoveConfigs 3 project_tree 0 = Some (Inr project_tree_cleared)"
    by (simp add: a RemoveConfigs_def)
      (simp add: project_tree_def project_tree_cleared_def example_defs)
  obtain h' where h': "RemoveConfigs 3 project_tree 0 = Some (Inr h')"
    "LastChilds 3 h' 0 = Some [1, 2]" "RemoveConfigs 3 h' 0 = Some (Inr h')"
    using RemoveConfigs_clears_and_is_idempotent [OF a b c] by blast
  then have "h' = project_tree_cleared" using d by simp
  then show ?thesis
    using a d h' by (simp add: project_tree_cleared_def config_node_def)
qed

section \<open>Properties of \<open>Parent\<close>\<close>







section \<open>Properties of \<open>Copy\<close>\<close>


lemma member_simps [simp]:
  "member enc (key, None) = Some (key, None)"
  "member enc (key, Some c) = map_option (\<lambda>j. (key, Some j)) (enc c)"
  by (simp_all add: member_def)


















section \<open>Properties of \<open>AttachToLastChilds\<close>\<close>












end
